theory Spec2Isabelle
  imports Complex_Main "HOL-Library.Sublist"
begin

section \<open>JavaScript numbers and library functions used by App.jsx\<close>

text \<open>
  The dashboard computes with JavaScript Numbers, which are IEEE 754 binary64 values.
  A finite Number is modelled by the real number it denotes.  In the generator every
  arithmetic operation and every decimal literal is rounded to the nearest binary64 value
  by \<open>fl\<close>, as the source does.  The results of \<open>Math.round\<close> and the currency fields built
  from them are integers and are kept as \<open>int\<close>; their sums stay far below \<open>2 ^ 53\<close> and are
  exact.  The only place where the source can leave the finite numbers is the division by
  \<open>filteredData.length\<close> in \<open>metrics\<close>, so the quotient there has the type \<open>number\<close>, which
  has the non-finite values of a Number; the sum and the quotient of the risk average are
  taken on the real numbers that the scores denote.
\<close>

datatype number = Finite real | PosInfinity | NegInfinity | NaN

text \<open>\<open>a / b\<close> on finite operands: a zero divisor gives \<open>NaN\<close> for \<open>0 / 0\<close> and an
  infinity otherwise; nothing is thrown.\<close>

definition js_div :: "real \<Rightarrow> real \<Rightarrow> number" where
  "js_div a b =
     (if b = 0 then (if a = 0 then NaN else if 0 < a then PosInfinity else NegInfinity)
      else Finite (a / b))"

text \<open>\<open>x * c\<close> for a finite right operand \<open>c\<close>.\<close>

fun js_times :: "number \<Rightarrow> real \<Rightarrow> number" where
  "js_times (Finite a) c = Finite (a * c)"
| "js_times PosInfinity c = (if 0 < c then PosInfinity else if c < 0 then NegInfinity else NaN)"
| "js_times NegInfinity c = (if 0 < c then NegInfinity else if c < 0 then PosInfinity else NaN)"
| "js_times NaN c = NaN"

text \<open>\<open>ilog2 n\<close> is the position of the leading bit of \<open>n \<ge> 1\<close>.\<close>

function ilog2 :: "int \<Rightarrow> int" where
  "ilog2 n = (if n < 2 then 0 else 1 + ilog2 (n div 2))"
  by pat_completeness auto
termination
  by (relation "measure nat") auto

declare ilog2.simps [simp del]

text \<open>The binary exponent of \<open>x > 0\<close>: the \<open>e\<close> with \<open>2 ^ e \<le> x < 2 ^ (e + 1)\<close>.\<close>

definition exponent :: "real \<Rightarrow> int" where
  "exponent x =
     (if 1 \<le> x then ilog2 \<lfloor>x\<rfloor>
      else - (1 + ilog2 (\<lceil>1 / x\<rceil> - 1)))"

text \<open>Rounding to the nearest integer, a tie to the even one.\<close>

definition round_even :: "real \<Rightarrow> int" where
  "round_even y =
     (let n = \<lfloor>y\<rfloor>; d = y - of_int n
      in if d < 1 / 2 then n else if 1 / 2 < d then n + 1 else if even n then n else n + 1)"

text \<open>
  \<open>fl x\<close> is the binary64 value nearest to \<open>x\<close>, a tie to the even significand: 53
  significant bits, and below \<open>2 ^ - 1022\<close> the fixed spacing \<open>2 ^ - 1074\<close> of the subnormal
  numbers.  Overflow to \<open>Infinity\<close> (magnitudes from \<open>2 ^ 1024\<close>) is left out: every value
  the generator forms is below \<open>2 ^ 18\<close>.
\<close>

definition fl :: "real \<Rightarrow> real" where
  "fl x =
     (if x = 0 then 0
      else let e = max (exponent \<bar>x\<bar>) (- 1022); q = 2 powi (e - 52)
           in of_int (round_even (x / q)) * q)"

definition Math_floor :: "real \<Rightarrow> int" where
  "Math_floor x = \<lfloor>x\<rfloor>"

text \<open>\<open>Math.round\<close> rounds to the nearest integer, a tie towards \<open>+\<infinity>\<close>.\<close>

definition Math_round :: "real \<Rightarrow> int" where
  "Math_round x = \<lfloor>x + 1 / 2\<rfloor>"

text \<open>\<open>x.toFixed(n)\<close>, as the number its digit string denotes: the decimal with \<open>n\<close>
  fraction digits nearest to \<open>x\<close>, a tie away from zero.\<close>

definition toFixed :: "nat \<Rightarrow> real \<Rightarrow> real" where
  "toFixed n x =
     (if x < 0 then - (of_int \<lfloor>(- x) * 10 ^ n + 1 / 2\<rfloor> / 10 ^ n)
      else of_int \<lfloor>x * 10 ^ n + 1 / 2\<rfloor> / 10 ^ n)"

text \<open>\<open>parseFloat\<close> of a digit string that denotes \<open>x\<close>: the Number nearest to \<open>x\<close>.\<close>

definition parseFloat :: "real \<Rightarrow> real" where
  "parseFloat x = fl x"

text \<open>The decimal rendering of a natural number inside a template literal.\<close>

fun string_of_nat :: "nat \<Rightarrow> string" where
  "string_of_nat n =
     (if n < 10 then [char_of (48 + n)]
      else string_of_nat (n div 10) @ [char_of (48 + n mod 10)])"

section \<open>Data model\<close>

datatype segment = MassMarket | Affluent | HighNetWorth

datatype region = NorthAmerica | EMEA | APAC | LatAm

record PortfolioRecord =
  customerId :: string
  segment :: segment
  region :: region
  accountBalance :: int
  creditLimit :: int
  utilization :: real
  riskScore :: real
  annualRevenue :: int
  defaultFlag :: bool

section \<open>Mock data generation: \<open>generatePortfolioData\<close>\<close>

definition segments :: "segment list" where
  "segments = [MassMarket, Affluent, HighNetWorth]"

definition regions :: "region list" where
  "regions = [NorthAmerica, EMEA, APAC, LatAm]"

text \<open>
  The segment-conditioned \<open>if\<close> chain of the loop body.  Each branch calls \<open>Math.random()\<close>
  once; the draw is the argument \<open>r\<close>.  The result is
  \<open>(baseBalance, baseLimit, riskFactor)\<close>.  The integer literals are exact; the product and
  the sum are rounded.
\<close>

definition segmentParams :: "segment \<Rightarrow> real \<Rightarrow> real \<times> int \<times> real" where
  "segmentParams seg r =
     (if seg = HighNetWorth then (fl (50000 + fl (r * 150000)), 100000, fl 0.1)
      else if seg = Affluent then (fl (15000 + fl (r * 50000)), 40000, fl 0.3)
      else (fl (1000 + fl (r * 10000)), 15000, fl 0.6))"

text \<open>
  \<open>Math.random\<close> is the function \<open>rnd\<close>: its \<open>k\<close>-th call (from 0) returns \<open>rnd k\<close>.
  One pass through the loop body with loop index \<open>i\<close>, entered when \<open>k\<close> calls have been
  made, makes the six calls \<open>k, ..., k + 5\<close> in the order of the source.
\<close>

definition loopBody :: "(nat \<Rightarrow> real) \<Rightarrow> nat \<Rightarrow> nat \<Rightarrow> PortfolioRecord" where
  "loopBody rnd k i =
     (let seg = segments ! nat (Math_floor (fl (rnd k * real (length segments))));
          reg = regions ! nat (Math_floor (fl (rnd (k + 1) * real (length regions))));
          (baseBalance, baseLimit, riskFactor) = segmentParams seg (rnd (k + 2));
          util = min (fl (baseBalance / real_of_int baseLimit)) (fl 1.2);
          risk0 = fl (fl (rnd (k + 3) * fl 0.4) + fl (util * fl 0.5));
          risk1 = (if seg = MassMarket then fl (risk0 + fl 0.1) else risk0);
          risk2 = min (max risk1 (fl 0.01)) (fl 0.99);
          dflag = (rnd (k + 4) < (if risk2 > fl 0.75 then fl 0.4 else fl 0.02));
          rev = fl (fl (baseBalance * fl 0.04) + fl (rnd (k + 5) * 500))
      in \<lparr> customerId = ''CUST-'' @ string_of_nat (1000 + i),
           segment = seg,
           region = reg,
           accountBalance = Math_round baseBalance,
           creditLimit = baseLimit,
           utilization = parseFloat (toFixed 2 util),
           riskScore = parseFloat (toFixed 3 risk2),
           annualRevenue = Math_round rev,
           defaultFlag = dflag \<rparr>)"

text \<open>The \<open>for\<close> loop: \<open>i\<close> is the loop index, \<open>k\<close> the number of draws made so far and
  \<open>data\<close> the array being filled by \<open>push\<close>.\<close>

function gen_loop ::
  "(nat \<Rightarrow> real) \<Rightarrow> nat \<Rightarrow> nat \<Rightarrow> PortfolioRecord list \<Rightarrow> PortfolioRecord list" where
  "gen_loop rnd i k data =
     (if i < 200 then gen_loop rnd (i + 1) (k + 6) (data @ [loopBody rnd k i]) else data)"
  by pat_completeness auto
termination
  by (relation "measure (\<lambda>(rnd, i, k, data). 200 - i)") auto

definition generatePortfolioData :: "(nat \<Rightarrow> real) \<Rightarrow> PortfolioRecord list" where
  "generatePortfolioData rnd = gen_loop rnd 0 0 []"

text \<open>
  The arrow function is declared with an empty parameter list, so a call
  \<open>generatePortfolioData(count)\<close> evaluates the same body: the argument is discarded.
\<close>

definition generatePortfolioData_call :: "nat \<Rightarrow> (nat \<Rightarrow> real) \<Rightarrow> PortfolioRecord list" where
  "generatePortfolioData_call count rnd = generatePortfolioData rnd"

text \<open>The contract of \<open>Math.random\<close>: every draw lies in \<open>[0, 1)\<close>.  A draw is moreover a
  Number, that is a fixed point of \<open>fl\<close>.\<close>

definition unit_draws :: "(nat \<Rightarrow> real) \<Rightarrow> bool" where
  "unit_draws rnd = (\<forall>k. 0 \<le> rnd k \<and> rnd k < 1)"

definition number_draws :: "(nat \<Rightarrow> real) \<Rightarrow> bool" where
  "number_draws rnd = (\<forall>k. fl (rnd k) = rnd k)"

section \<open>Aggregation: \<open>filteredData\<close>, \<open>metrics\<close>, \<open>segmentData\<close>, \<open>regionData\<close>\<close>

text \<open>A filter selection is the string \<open>"all"\<close> or the name of one member of the
  enumeration (the \<open>option\<close> values of the two \<open>select\<close> elements).\<close>

datatype 'a selection = SelAll | Sel 'a

definition filteredData ::
  "PortfolioRecord list \<Rightarrow> segment selection \<Rightarrow> region selection \<Rightarrow> PortfolioRecord list" where
  "filteredData portfolioData selectedSegment selectedRegion =
     filter (\<lambda>d.
        let segmentMatch = (selectedSegment = SelAll \<or> Sel (segment d) = selectedSegment);
            regionMatch = (selectedRegion = SelAll \<or> Sel (region d) = selectedRegion)
        in segmentMatch \<and> regionMatch) portfolioData"

record AggregateMetrics =
  totalBalance :: int
  totalRevenue :: int
  avgRisk :: number
  defaultRate :: number

definition metrics :: "PortfolioRecord list \<Rightarrow> AggregateMetrics" where
  "metrics fd =
     (let tb = foldl (\<lambda>acc curr. acc + accountBalance curr) 0 fd;
          tr = foldl (\<lambda>acc curr. acc + annualRevenue curr) 0 fd;
          ar = js_div (foldl (\<lambda>acc curr. acc + riskScore curr) 0 fd) (real (length fd));
          defaults = length (filter defaultFlag fd);
          dr = js_times (js_div (real defaults) (real (length fd))) 100
      in \<lparr> totalBalance = tb, totalRevenue = tr, avgRisk = ar, defaultRate = dr \<rparr>)"

text \<open>
  The accumulator object \<open>agg\<close> is a list of (key, entry) pairs in insertion order, which
  is the order of \<open>Object.values\<close>.  \<open>agg[k]\<close> is the entry of the first pair with key \<open>k\<close>;
  \<open>obj_modify\<close> applies an in-place change to it.
\<close>

fun obj_modify :: "'k \<Rightarrow> ('v \<Rightarrow> 'v) \<Rightarrow> ('k \<times> 'v) list \<Rightarrow> ('k \<times> 'v) list" where
  "obj_modify k f [] = []"
| "obj_modify k f ((k', v) # kvs) =
     (if k' = k then (k', f v) # kvs else (k', v) # obj_modify k f kvs)"

text \<open>The fields \<open>name, value, balance, count, revenue\<close> of a segment entry.\<close>

record SegmentSummary =
  seg_name :: segment
  seg_value :: int
  seg_balance :: int
  seg_count :: nat
  seg_revenue :: int

definition segment_step ::
  "(segment \<times> SegmentSummary) list \<Rightarrow> PortfolioRecord \<Rightarrow> (segment \<times> SegmentSummary) list" where
  "segment_step agg d =
     (let agg0 = (if map_of agg (segment d) = None
                  then agg @ [(segment d, \<lparr> seg_name = segment d, seg_value = 0,
                                 seg_balance = 0, seg_count = 0, seg_revenue = 0 \<rparr>)]
                  else agg);
          agg1 = obj_modify (segment d) (\<lambda>e. e\<lparr> seg_value := seg_value e + annualRevenue d \<rparr>) agg0;
          agg2 = obj_modify (segment d) (\<lambda>e. e\<lparr> seg_balance := seg_balance e + accountBalance d \<rparr>) agg1;
          agg3 = obj_modify (segment d) (\<lambda>e. e\<lparr> seg_revenue := seg_revenue e + annualRevenue d \<rparr>) agg2
      in obj_modify (segment d) (\<lambda>e. e\<lparr> seg_count := seg_count e + 1 \<rparr>) agg3)"

definition segmentData :: "PortfolioRecord list \<Rightarrow> SegmentSummary list" where
  "segmentData fd = map snd (foldl segment_step [] fd)"

text \<open>The fields \<open>name, revenue\<close> of a region entry.\<close>

record RegionSummary =
  reg_name :: region
  reg_revenue :: int

definition region_step ::
  "(region \<times> RegionSummary) list \<Rightarrow> PortfolioRecord \<Rightarrow> (region \<times> RegionSummary) list" where
  "region_step agg d =
     (let agg0 = (if map_of agg (region d) = None
                  then agg @ [(region d, \<lparr> reg_name = region d, reg_revenue = 0 \<rparr>)]
                  else agg)
      in obj_modify (region d) (\<lambda>e. e\<lparr> reg_revenue := reg_revenue e + annualRevenue d \<rparr>) agg0)"

text \<open>
  \<open>Array.prototype.sort(compare)\<close> is a stable sort: \<open>a\<close> is placed before \<open>b\<close> when
  \<open>compare(a, b) < 0\<close>, and elements that compare as equal keep their order.  It is
  modelled by a stable insertion sort.
\<close>

fun sort_insert :: "('a \<Rightarrow> 'a \<Rightarrow> int) \<Rightarrow> 'a \<Rightarrow> 'a list \<Rightarrow> 'a list" where
  "sort_insert compare x [] = [x]"
| "sort_insert compare x (y # ys) =
     (if compare x y \<le> 0 then x # y # ys else y # sort_insert compare x ys)"

definition array_sort :: "('a \<Rightarrow> 'a \<Rightarrow> int) \<Rightarrow> 'a list \<Rightarrow> 'a list" where
  "array_sort compare xs = foldr (sort_insert compare) xs []"

definition regionData :: "PortfolioRecord list \<Rightarrow> RegionSummary list" where
  "regionData fd =
     array_sort (\<lambda>a b. reg_revenue b - reg_revenue a) (map snd (foldl region_step [] fd))"

text \<open>A source of draws that always returns 0.\<close>

definition zero_draws :: "nat \<Rightarrow> real" where
  "zero_draws k = 0"


text \<open>
  The clamp rule of the data model, in the spec's words, on a record's stored fields:
  \<open>accountBalance / creditLimit\<close>, clamped to \<open>[0, 1.2]\<close>, rounded to 2 decimals; computed
  with the arithmetic of the program.
\<close>

definition utilization_rule :: "int \<Rightarrow> int \<Rightarrow> real" where
  "utilization_rule balance limit =
     parseFloat (toFixed 2 (min (max (fl (real_of_int balance / real_of_int limit)) 0) (fl 1.2)))"

text \<open>
  A source of draws whose first record is an Affluent account with a base balance just
  below 25000.  The three values are dyadic fractions, hence Numbers.
\<close>

definition boundary_draws :: "nat \<Rightarrow> real" where
  "boundary_draws k = (if k = 0 then 1 / 2 else if k = 2 then 209715 / 1048576 else 0)"

text \<open>The range invariants of a generated record.\<close>

definition record_bounds :: "PortfolioRecord \<Rightarrow> bool" where
  "record_bounds d \<longleftrightarrow>
     0.01 \<le> riskScore d \<and> riskScore d \<le> 0.99 \<and> 0 \<le> utilization d \<and> utilization d \<le> 1.2
     \<and> 0 \<le> accountBalance d \<and> 0 \<le> annualRevenue d"

section \<open>The generator's loop\<close>

lemma gen_loop_unfold:
  "i \<le> 200 \<Longrightarrow>
   gen_loop rnd i k data = data @ map (\<lambda>j. loopBody rnd (k + 6 * (j - i)) j) [i..<200]"
proof (induction rnd i k data rule: gen_loop.induct)
  case (1 rnd i k data)
  show ?case
  proof (cases "i < 200")
    case True
    have shift: "k + 6 + 6 * (j - Suc i) = k + 6 * (j - i)" if "Suc i \<le> j" for j
      using that by arith
    have "gen_loop rnd i k data = gen_loop rnd (i + 1) (k + 6) (data @ [loopBody rnd k i])"
      using True by simp
    also have "\<dots> = (data @ [loopBody rnd k i]) @
                     map (\<lambda>j. loopBody rnd (k + 6 + 6 * (j - (i + 1))) j) [i + 1..<200]"
      using True "1.IH" by simp
    also have "\<dots> = data @ map (\<lambda>j. loopBody rnd (k + 6 * (j - i)) j) [i..<200]"
      using True by (simp add: shift upt_conv_Cons)
    finally show ?thesis .
  next
    case False
    with "1.prems" have "i = 200" by simp
    then show ?thesis by simp
  qed
qed

lemma generatePortfolioData_map:
  "generatePortfolioData rnd = map (\<lambda>j. loopBody rnd (6 * j) j) [0..<200]"
  by (simp add: generatePortfolioData_def gen_loop_unfold del: gen_loop.simps)

lemma length_generatePortfolioData: "length (generatePortfolioData rnd) = 200"
  by (simp add: generatePortfolioData_map)

lemma generatePortfolioData_nth:
  "i < 200 \<Longrightarrow> generatePortfolioData rnd ! i = loopBody rnd (6 * i) i"
  by (simp add: generatePortfolioData_map del: upt_Suc)

section \<open>Rounding to binary64\<close>

lemma ilog2_bracket:
  "1 \<le> n \<Longrightarrow>
   0 \<le> ilog2 n \<and> (2::real) powi ilog2 n \<le> of_int n \<and> of_int n + 1 \<le> (2::real) powi (ilog2 n + 1)"
proof (induction n rule: ilog2.induct)
  case (1 n)
  show ?case
  proof (cases "n < 2")
    case True
    with "1.prems" have "n = 1" by simp
    then show ?thesis by (simp add: ilog2.simps)
  next
    case False
    then have h: "1 \<le> n div 2" by simp
    define k where "k = ilog2 (n div 2)"
    from "1.IH"[OF False h]
    have k0: "0 \<le> k" and a: "(2::real) powi k \<le> of_int (n div 2)"
      and b: "of_int (n div 2) + 1 \<le> (2::real) powi (k + 1)"
      by (simp_all add: k_def)
    have e: "ilog2 n = 1 + k"
      using False by (subst ilog2.simps) (simp add: k_def)
    have "2 * (n div 2) \<le> n" "n \<le> 2 * (n div 2) + 1"
      by simp_all
    then have d: "2 * real_of_int (n div 2) \<le> of_int n" "real_of_int n \<le> 2 * of_int (n div 2) + 1"
      by linarith+
    have p1: "(2::real) powi (1 + k) = 2 * 2 powi k"
      using power_int_add[of "2::real" 1 k] by simp
    have p2: "(2::real) powi (1 + k + 1) = 2 * 2 powi (k + 1)"
      using power_int_add[of "2::real" 1 "k + 1"] by (simp add: add.assoc)
    show ?thesis
      unfolding e p1 p2 using k0 a b d by linarith
  qed
qed

lemma exponent_bracket:
  assumes "0 < x"
  shows "2 powi exponent x \<le> x \<and> x < 2 powi (exponent x + 1)"
proof (cases "1 \<le> x")
  case True
  define n where "n = \<lfloor>x\<rfloor>"
  have n1: "1 \<le> n" using True unfolding n_def by linarith
  have nx: "real_of_int n \<le> x" "x < real_of_int n + 1"
    unfolding n_def by linarith+
  have ex: "exponent x = ilog2 n"
    using True by (simp add: exponent_def n_def)
  show ?thesis
    unfolding ex using ilog2_bracket[OF n1] nx by linarith
next
  case False
  define y where "y = 1 / x"
  define m where "m = \<lceil>y\<rceil>"
  have y1: "1 < y" using assms False by (simp add: y_def)
  have m2: "1 \<le> m - 1" using y1 unfolding m_def by linarith
  have my: "y \<le> real_of_int m" "real_of_int m - 1 < y"
    unfolding m_def by linarith+
  define k where "k = ilog2 (m - 1)"
  from ilog2_bracket[OF m2]
  have k0: "0 \<le> k" and kb0: "(2::real) powi k \<le> real_of_int (m - 1)"
    "real_of_int (m - 1) + 1 \<le> 2 powi (k + 1)"
    by (simp_all add: k_def)
  then have kb: "(2::real) powi k < y" "y \<le> 2 powi (k + 1)"
    using my by simp_all
  have ex: "exponent x = - (1 + k)"
    using False by (simp add: exponent_def k_def m_def y_def)
  have x: "x = 1 / y" using assms by (simp add: y_def)
  have pk: "0 < (2::real) powi k" "0 < (2::real) powi (k + 1)" by simp_all
  have l: "1 / 2 powi (k + 1) \<le> x"
    unfolding x using kb(2) y1 pk by (intro divide_left_mono) simp_all
  have u: "x < 1 / 2 powi k"
    unfolding x using kb(1) y1 pk by (intro divide_strict_left_mono) simp_all
  have "- (1 + k) = - (k + 1)" by simp
  then have p1: "2 powi exponent x = (1::real) / 2 powi (k + 1)"
    unfolding ex by (simp only: power_int_minus_divide)
  have "exponent x + 1 = - k"
    unfolding ex by simp
  then have p2: "2 powi (exponent x + 1) = (1::real) / 2 powi k"
    by (simp only: power_int_minus_divide)
  show ?thesis
    unfolding p1 p2 using l u by (rule conjI)
qed

lemma exponent_le:
  assumes "0 < x" and "x < 2 powi (k + 1)"
  shows "exponent x \<le> k"
proof (rule ccontr)
  assume "\<not> exponent x \<le> k"
  then have "k + 1 \<le> exponent x" by simp
  then have "(2::real) powi (k + 1) \<le> 2 powi exponent x"
    by (intro power_int_increasing) simp_all
  with exponent_bracket[OF assms(1)] assms(2) show False by linarith
qed

lemma round_even_err: "\<bar>real_of_int (round_even y) - y\<bar> \<le> 1 / 2"
  unfolding round_even_def Let_def by (auto simp: abs_if) linarith+

lemma round_even_nonneg: "0 \<le> y \<Longrightarrow> 0 \<le> round_even y"
  unfolding round_even_def Let_def by auto

lemma fl_zero: "fl 0 = 0"
  by (simp add: fl_def)

lemma fl_nonneg: "0 \<le> x \<Longrightarrow> 0 \<le> fl x"
  unfolding fl_def Let_def
  by (auto intro!: mult_nonneg_nonneg round_even_nonneg simp: zero_le_divide_iff)

lemma fl_err:
  assumes "\<bar>x\<bar> < 2 powi (k + 1)" and "- 1022 \<le> k"
  shows "\<bar>fl x - x\<bar> \<le> 2 powi (k - 53)"
proof (cases "x = 0")
  case True
  then show ?thesis by (simp add: fl_zero)
next
  case False
  define e where "e = max (exponent \<bar>x\<bar>) (- 1022)"
  define q :: real where "q = 2 powi (e - 52)"
  have q: "0 < q" by (simp add: q_def)
  have "exponent \<bar>x\<bar> \<le> k"
    using False assms(1) by (intro exponent_le) simp_all
  then have ek: "e \<le> k" using assms(2) by (simp add: e_def)
  have f: "fl x = real_of_int (round_even (x / q)) * q"
    using False by (simp add: fl_def Let_def e_def q_def)
  have "fl x - x = (real_of_int (round_even (x / q)) - x / q) * q"
    using q by (simp add: f algebra_simps)
  then have "\<bar>fl x - x\<bar> = \<bar>real_of_int (round_even (x / q)) - x / q\<bar> * q"
    using q by (simp add: abs_mult)
  also have "\<dots> \<le> (1 / 2) * q"
    using q round_even_err[of "x / q"] by (intro mult_right_mono) simp_all
  also have "\<dots> = 2 powi (e - 53)"
  proof -
    have "(2::real) powi ((e - 53) + 1) = 2 powi (e - 53) * 2 powi 1"
      by (rule power_int_add) simp
    then have "q = 2 powi (e - 53) * 2"
      by (simp add: q_def)
    then show ?thesis by simp
  qed
  also have "\<dots> \<le> 2 powi (k - 53)"
    using ek by (intro power_int_increasing) simp_all
  finally show ?thesis .
qed

lemma fl_const:
  "fl 1.2 \<le> 1.2" "0.01 \<le> fl 0.01" "fl 0.99 \<le> 0.99" "fl 0.01 \<le> fl 0.99" "0 \<le> fl 1.2"
  by (simp_all add: fl_def exponent_def ilog2.simps round_even_def Let_def)


lemma fl_close: "\<bar>x\<bar> < 262144 \<Longrightarrow> \<bar>fl x - x\<bar> \<le> 1 / 1000000"
proof -
  assume "\<bar>x\<bar> < 262144"
  then have "\<bar>fl x - x\<bar> \<le> 2 powi (17 - 53)"
    by (intro fl_err) simp_all
  also have "\<dots> \<le> 1 / 1000000" by simp
  finally show ?thesis .
qed

lemma parse2_bounds:
  assumes "0 \<le> n" and "n \<le> 120"
  shows "0 \<le> parseFloat (real_of_int n / 100) \<and> parseFloat (real_of_int n / 100) \<le> 1.2"
proof -
  define x where "x = real_of_int n / 100"
  have x: "0 \<le> x" "x \<le> 120 / 100"
    using assms by (simp_all add: x_def)
  have lo: "0 \<le> fl x"
    using x(1) by (rule fl_nonneg)
  have hi: "fl x \<le> 1.2"
  proof (cases "n = 120")
    case True
    then have x': "x = 1.2" by (simp add: x_def)
    show ?thesis unfolding x' by (rule fl_const(1))
  next
    case False
    with assms have "real_of_int n \<le> 119" by simp
    then have "x \<le> 119 / 100" by (simp add: x_def)
    moreover have "\<bar>fl x - x\<bar> \<le> 1 / 1000000"
      using x by (intro fl_close) simp
    ultimately show ?thesis by linarith
  qed
  show ?thesis using lo hi by (simp add: parseFloat_def x_def)
qed

lemma parse3_bounds:
  assumes "10 \<le> n" and "n \<le> 990"
  shows "0.01 \<le> parseFloat (real_of_int n / 1000) \<and> parseFloat (real_of_int n / 1000) \<le> 0.99"
proof -
  define x where "x = real_of_int n / 1000"
  have x: "10 / 1000 \<le> x" "x \<le> 990 / 1000"
    using assms by (simp_all add: x_def)
  have e: "\<bar>fl x - x\<bar> \<le> 1 / 1000000"
    using x by (intro fl_close) simp
  have lo: "0.01 \<le> fl x"
  proof (cases "n = 10")
    case True
    then have x': "x = 0.01" by (simp add: x_def)
    show ?thesis unfolding x' by (rule fl_const(2))
  next
    case False
    with assms have "11 \<le> real_of_int n" by simp
    then have "11 / 1000 \<le> x" by (simp add: x_def)
    with e have "1 / 100 \<le> fl x" by linarith
    then show ?thesis by simp
  qed
  have hi: "fl x \<le> 0.99"
  proof (cases "n = 990")
    case True
    then have x': "x = 0.99" by (simp add: x_def)
    show ?thesis unfolding x' by (rule fl_const(3))
  next
    case False
    with assms have "real_of_int n \<le> 989" by simp
    then have "x \<le> 989 / 1000" by (simp add: x_def)
    with e have "fl x \<le> 99 / 100" by linarith
    then show ?thesis by simp
  qed
  show ?thesis using lo hi by (simp add: parseFloat_def x_def)
qed

text \<open>The unfolding rules that evaluate \<open>fl\<close> at a given rational number.\<close>

lemmas fl_eval = fl_def exponent_def ilog2.simps round_even_def Let_def

text \<open>The largest Number below 1 is \<open>1 - 2 ^ - 53\<close>.\<close>

lemma number_below_one:
  assumes "fl r = r" and "0 \<le> r" and "r < 1"
  shows "r \<le> 1 - 1 / 2 ^ 53"
proof (cases "r < 1 / 2")
  case True
  then show ?thesis by simp
next
  case False
  then have r: "1 / 2 \<le> r" "0 < r" "r \<noteq> 0" by simp_all
  have "exponent r \<le> - 1"
    using r(2) assms(3) by (intro exponent_le) simp_all
  moreover have "- 1 \<le> exponent r"
  proof (rule ccontr)
    assume "\<not> - 1 \<le> exponent r"
    then have "exponent r + 1 \<le> - 1" by simp
    then have "(2::real) powi (exponent r + 1) \<le> 2 powi (- 1)"
      by (intro power_int_increasing) simp_all
    with exponent_bracket[OF r(2)] r(1) show False by simp
  qed
  ultimately have e: "exponent r = - 1" by simp
  define N where "N = round_even (r / 2 powi (- 53))"
  have f: "fl r = real_of_int N * 2 powi (- 53)"
    using r(2,3) by (simp add: fl_def Let_def e N_def)
  have p: "(2::real) powi (- 53) = 1 / 9007199254740992"
    by (simp add: power_int_minus_divide)
  have "real_of_int N / 9007199254740992 < 1"
    using assms(1,3) f p by simp
  then have "real_of_int N < real_of_int 9007199254740992" by simp
  then have "N < 9007199254740992" by (simp only: of_int_less_iff)
  then have "N \<le> 9007199254740991" by simp
  then have "real_of_int N \<le> real_of_int 9007199254740991" by (simp only: of_int_le_iff)
  then have "real_of_int N / 9007199254740992 \<le> 9007199254740991 / 9007199254740992"
    by simp
  then have "r \<le> 9007199254740991 / 9007199254740992"
    using assms(1) f p by simp
  then show ?thesis by simp
qed

section \<open>Sources of draws\<close>

lemma unit_zero_draws: "unit_draws zero_draws"
  by (simp add: unit_draws_def zero_draws_def)

lemma boundary_draws_unit: "unit_draws boundary_draws"
  by (simp add: unit_draws_def boundary_draws_def)

lemma boundary_draws_number: "number_draws boundary_draws"
  by (simp add: number_draws_def boundary_draws_def fl_eval)

lemma zero_draws_number: "number_draws zero_draws"
  by (simp add: number_draws_def zero_draws_def fl_eval)

text \<open>Under the contract of \<open>Math.random\<close> both array reads of the loop body are in range.\<close>

lemma pick_in_range:
  assumes "unit_draws rnd" and "number_draws rnd"
  shows "nat (Math_floor (fl (rnd k * real (length segments)))) < length segments"
    and "nat (Math_floor (fl (rnd k * real (length regions)))) < length regions"
proof -
  have "rnd k \<le> 1 - 1 / 2 ^ 53"
    using assms number_below_one[of "rnd k"] by (auto simp: unit_draws_def number_draws_def)
  then have r: "0 \<le> rnd k" "rnd k \<le> 9007199254740991 / 9007199254740992"
    using assms(1) by (simp_all add: unit_draws_def)
  have "\<bar>rnd k * 3\<bar> < 2 powi (1 + 1)" "\<bar>rnd k * 4\<bar> < 2 powi (1 + 1)"
    using r by simp_all
  then have "\<bar>fl (rnd k * 3) - rnd k * 3\<bar> \<le> 2 powi (1 - 53)"
    "\<bar>fl (rnd k * 4) - rnd k * 4\<bar> \<le> 2 powi (1 - 53)"
    by (simp_all only: fl_err)
  then have "\<bar>fl (rnd k * 3) - rnd k * 3\<bar> \<le> 1 / 4503599627370496"
    "\<bar>fl (rnd k * 4) - rnd k * 4\<bar> \<le> 1 / 4503599627370496"
    by simp_all
  then have "fl (rnd k * 3) < 3" "fl (rnd k * 4) < 4"
    using r by linarith+
  moreover have "0 \<le> fl (rnd k * 3)" "0 \<le> fl (rnd k * 4)"
    using r by (auto intro!: fl_nonneg)
  ultimately have "nat \<lfloor>fl (rnd k * 3)\<rfloor> < 3" "nat \<lfloor>fl (rnd k * 4)\<rfloor> < 4"
    by linarith+
  moreover have "length segments = 3" "length regions = 4"
    by (simp_all add: segments_def regions_def)
  ultimately show "nat (Math_floor (fl (rnd k * real (length segments)))) < length segments"
    and "nat (Math_floor (fl (rnd k * real (length regions)))) < length regions"
    by (simp_all add: Math_floor_def)
qed

section \<open>Fields of a generated record\<close>

lemma segmentParams_balance:
  assumes "0 \<le> r" and "r < 1"
  shows "999 \<le> fst (segmentParams seg r) \<and> fst (segmentParams seg r) \<le> 200002"
proof -
  have step: "c - 1 \<le> fl (c + fl (r * w)) \<and> fl (c + fl (r * w)) \<le> c + w + 2"
    if "0 < w" "w \<le> 150000" "0 \<le> c" "c \<le> 50000" for c w :: real
  proof -
    have "r * w \<le> 1 * w"
      using assms that by (intro mult_right_mono) simp_all
    moreover have "0 \<le> r * w"
      using assms that by simp
    ultimately have rw: "0 \<le> r * w" "r * w \<le> w" by simp_all
    then have "\<bar>r * w\<bar> < 262144" using that by linarith
    from fl_close[OF this] fl_nonneg[OF rw(1)] rw
    have p: "0 \<le> fl (r * w)" "fl (r * w) \<le> w + 1"
      by linarith+
    then have "\<bar>c + fl (r * w)\<bar> < 262144" using that by linarith
    from fl_close[OF this] p that show ?thesis
      by linarith
  qed
  show ?thesis
    using step[of 150000 50000] step[of 50000 15000] step[of 10000 1000]
    by (simp add: segmentParams_def)
qed

lemma segmentParams_limit:
  "15000 \<le> fst (snd (segmentParams seg r)) \<and> fst (snd (segmentParams seg r)) \<le> 100000"
  by (simp add: segmentParams_def)

lemma loopBody_fields:
  fixes rnd :: "nat \<Rightarrow> real" and k i :: nat
  defines "seg \<equiv> segments ! nat (Math_floor (fl (rnd k * real (length segments))))"
  defines "b \<equiv> fst (segmentParams seg (rnd (k + 2)))"
  defines "L \<equiv> fst (snd (segmentParams seg (rnd (k + 2))))"
  defines "util \<equiv> min (fl (b / real_of_int L)) (fl 1.2)"
  defines "raw \<equiv> fl (fl (rnd (k + 3) * fl 0.4) + fl (util * fl 0.5))"
  shows "segment (loopBody rnd k i) = seg"
    and "accountBalance (loopBody rnd k i) = Math_round b"
    and "creditLimit (loopBody rnd k i) = L"
    and "utilization (loopBody rnd k i) = parseFloat (toFixed 2 util)"
    and "riskScore (loopBody rnd k i) =
           parseFloat (toFixed 3 (min (max (if seg = MassMarket then fl (raw + fl 0.1) else raw)
                                        (fl 0.01)) (fl 0.99)))"
    and "annualRevenue (loopBody rnd k i) =
           Math_round (fl (fl (b * fl 0.04) + fl (rnd (k + 5) * 500)))"
  unfolding loopBody_def Let_def split_beta seg_def b_def L_def util_def raw_def
  by simp_all

text \<open>The first record generated from \<open>zero_draws\<close> is a Mass Market account.\<close>

lemma zero_record:
  "segment (generatePortfolioData zero_draws ! 0) = MassMarket"
  "creditLimit (generatePortfolioData zero_draws ! 0) = 15000"
proof -
  have s: "segments ! nat (Math_floor (fl (zero_draws 0 * real (length segments)))) = MassMarket"
    by (simp add: zero_draws_def segments_def Math_floor_def fl_zero)
  have n: "generatePortfolioData zero_draws ! 0 = loopBody zero_draws 0 0"
    using generatePortfolioData_nth[of 0 zero_draws] by simp
  note f0 = loopBody_fields(1,3)[of zero_draws 0 0, unfolded s]
  show "segment (generatePortfolioData zero_draws ! 0) = MassMarket"
    "creditLimit (generatePortfolioData zero_draws ! 0) = 15000"
    unfolding n f0 by (simp_all add: segmentParams_def)
qed

section \<open>Rounding to decimals\<close>

lemma toFixed_nonneg: "0 \<le> x \<Longrightarrow> toFixed n x = of_int \<lfloor>x * 10 ^ n + 1 / 2\<rfloor> / 10 ^ n"
  by (simp add: toFixed_def)

lemma toFixed_mono: "0 \<le> x \<Longrightarrow> x \<le> y \<Longrightarrow> toFixed n x \<le> toFixed n y"
proof -
  assume x: "0 \<le> x" and xy: "x \<le> y"
  have "\<lfloor>x * 10 ^ n + 1 / 2\<rfloor> \<le> \<lfloor>y * 10 ^ n + 1 / 2\<rfloor>"
    using xy by (intro floor_mono) (simp add: mult_right_mono)
  then show ?thesis
    using x xy by (simp add: toFixed_nonneg divide_right_mono)
qed

lemma floor_near:
  fixes x y :: real
  assumes "\<bar>x - y\<bar> < 1"
  shows "\<bar>real_of_int \<lfloor>x\<rfloor> - real_of_int \<lfloor>y\<rfloor>\<bar> \<le> 1"
proof -
  have "\<lfloor>x\<rfloor> \<le> \<lfloor>y\<rfloor> + 1" "\<lfloor>y\<rfloor> \<le> \<lfloor>x\<rfloor> + 1"
    using assms by linarith+
  then show ?thesis by linarith
qed

lemma toFixed_near:
  assumes "0 \<le> x" "0 \<le> y" "\<bar>x - y\<bar> < 1 / 100"
  shows "\<bar>toFixed 2 x - toFixed 2 y\<bar> \<le> 1 / 100"
proof -
  have "\<bar>(x * 100 + 1 / 2) - (y * 100 + 1 / 2)\<bar> < 1"
    using assms(3) by linarith
  from floor_near[OF this]
  show ?thesis
    using assms(1,2) by (simp add: toFixed_nonneg field_simps flip: diff_divide_distrib)
qed

section \<open>Size of the generated collection\<close>

text \<open>
  C1, as stated: the generator called with a count argument returns that many records.
  The source's loop bound is the literal 200 and the function has no parameter, so a
  call with the argument 0 still returns 200 records.
\<close>

theorem generate_zero_not_empty:
  "length (generatePortfolioData_call 0 zero_draws) = 200 \<and> generatePortfolioData_call 0 zero_draws \<noteq> []"
proof -
  have "length (generatePortfolioData_call 0 zero_draws) = 200"
    by (simp add: generatePortfolioData_call_def length_generatePortfolioData)
  then show ?thesis by auto
qed

text \<open>
  C1, amended: whatever argument is passed and whatever the draws are, the generator
  returns exactly 200 records.
\<close>

theorem generate_always_200:
  "length (generatePortfolioData_call count rnd) = 200"
  by (simp add: generatePortfolioData_call_def length_generatePortfolioData)

section \<open>Metrics of an empty filtered set\<close>

text \<open>
  C2, as stated: on an empty filtered set every metric field is a defined sentinel and
  not NaN.  In the source both quotients are \<open>0 / 0\<close>.
\<close>

theorem metrics_empty_is_NaN:
  "avgRisk (metrics []) = NaN \<and> defaultRate (metrics []) = NaN"
  by (simp add: metrics_def js_div_def)

text \<open>
  C2, amended: on an empty filtered set \<open>metrics\<close> returns a value (nothing is thrown);
  the two sums are 0, and the average risk and the default rate are both NaN.
\<close>

theorem metrics_empty_value:
  "metrics [] = \<lparr> totalBalance = 0, totalRevenue = 0, avgRisk = NaN, defaultRate = NaN \<rparr>"
  by (simp add: metrics_def js_div_def)

text \<open>
  C10: on an empty filtered set the running sums \<open>totalBalance\<close> and \<open>totalRevenue\<close>
  are exactly 0.
\<close>

theorem metrics_empty_sums_zero:
  "totalBalance (metrics []) = 0 \<and> totalRevenue (metrics []) = 0"
  by (simp add: metrics_def)

section \<open>The end-to-end scenario\<close>


section \<open>Filtering\<close>

text \<open>
  C6: \<open>filteredData\<close> keeps a record if and only if (the segment filter is "all" or equals
  the record's segment) and (the region filter is "all" or equals the record's region); the
  kept records appear in their input order.
\<close>

theorem filteredData_keeps_iff:
  "filteredData recs sf rf =
     filter (\<lambda>d. (sf = SelAll \<or> sf = Sel (segment d)) \<and> (rf = SelAll \<or> rf = Sel (region d))) recs
   \<and> subseq (filteredData recs sf rf) recs
   \<and> (d \<in> set (filteredData recs sf rf) \<longleftrightarrow>
        d \<in> set recs \<and> (sf = SelAll \<or> sf = Sel (segment d)) \<and> (rf = SelAll \<or> rf = Sel (region d)))"
  by (auto simp: filteredData_def Let_def intro: filter_cong)

section \<open>Stored utilization\<close>

text \<open>
  C4, as stated: the stored utilization of every generated record equals the clamp rule
  applied to the record's stored \<open>accountBalance\<close> and \<open>creditLimit\<close>.  The loop body
  takes the utilization from the unrounded \<open>baseBalance\<close> and rounds the balance
  afterwards: with the draws \<open>boundary_draws\<close> the first record is an Affluent account with
  \<open>baseBalance = 24999.990463...\<close>, stored balance 25000, limit 40000 and stored utilization
  0.62, while the rule gives \<open>25000 / 40000 = 0.625\<close>, rounded to 0.63.
\<close>

theorem utilization_not_from_stored_balance:
  "unit_draws boundary_draws \<and> number_draws boundary_draws
   \<and> segment (generatePortfolioData boundary_draws ! 0) = Affluent
   \<and> accountBalance (generatePortfolioData boundary_draws ! 0) = 25000
   \<and> creditLimit (generatePortfolioData boundary_draws ! 0) = 40000
   \<and> utilization (generatePortfolioData boundary_draws ! 0) = parseFloat 0.62
   \<and> utilization_rule (accountBalance (generatePortfolioData boundary_draws ! 0))
        (creditLimit (generatePortfolioData boundary_draws ! 0)) = parseFloat 0.63
   \<and> parseFloat 0.62 < parseFloat 0.63"
proof -
  have s: "segments ! nat (Math_floor (fl (boundary_draws 0 * real (length segments)))) = Affluent"
    by (simp add: boundary_draws_def segments_def Math_floor_def fl_eval)
  have p: "fst (segmentParams Affluent (boundary_draws (0 + 2))) = 1638399375 / 65536"
    "fst (snd (segmentParams Affluent (boundary_draws (0 + 2)))) = 40000"
    by (simp_all add: segmentParams_def boundary_draws_def fl_eval)
  have d: "fl ((1638399375 / 65536) / real_of_int 40000) = 2621439 / 4194304"
    "fl 1.2 = 5404319552844595 / 4503599627370496"
    "fl (real_of_int 25000 / real_of_int 40000) = 5 / 8"
    by (simp_all add: fl_eval)
  have n: "generatePortfolioData boundary_draws ! 0 = loopBody boundary_draws 0 0"
    using generatePortfolioData_nth[of 0 boundary_draws] by simp
  note f0 = loopBody_fields(1,2,3,4)[of boundary_draws 0 0, unfolded s p d]
  have f: "segment (loopBody boundary_draws 0 0) = Affluent"
    "accountBalance (loopBody boundary_draws 0 0) = 25000"
    "creditLimit (loopBody boundary_draws 0 0) = 40000"
    "utilization (loopBody boundary_draws 0 0) = parseFloat 0.62"
    unfolding f0 by (simp_all add: Math_round_def toFixed_def)
  have r: "utilization_rule 25000 40000 = parseFloat 0.63"
    unfolding utilization_rule_def d by (simp add: toFixed_def)
  have "\<bar>fl (62 / 100) - 62 / 100\<bar> \<le> 1 / 1000000"
    "\<bar>fl (63 / 100) - 63 / 100\<bar> \<le> 1 / 1000000"
    by (rule fl_close, simp)+
  then have "fl (62 / 100) < fl (63 / 100)" by linarith
  then have lt: "parseFloat 0.62 < parseFloat 0.63"
    by (simp add: parseFloat_def)
  show ?thesis
    unfolding n f r using boundary_draws_unit boundary_draws_number lt by simp
qed

lemma utilization_near_rule:
  assumes b: "999 \<le> b" "b \<le> 200002" and L: "15000 \<le> L"
  defines "x \<equiv> min (fl (b / real_of_int L)) (fl 1.2)"
  defines "y \<equiv> min (max (fl (real_of_int (Math_round b) / real_of_int L)) 0) (fl 1.2)"
  shows "\<bar>toFixed 2 x - toFixed 2 y\<bar> \<le> 1 / 100"
proof -
  define rb where "rb = real_of_int (Math_round b)"
  define l where "l = real_of_int L"
  have l: "15000 \<le> l" using L by (simp add: l_def)
  have rb: "\<bar>b - rb\<bar> \<le> 1 / 2" "0 \<le> rb"
    unfolding rb_def Math_round_def using b by linarith+
  have "\<bar>b / l - rb / l\<bar> = \<bar>b - rb\<bar> / l"
    using l by (simp add: diff_divide_distrib[symmetric])
  also have "\<dots> \<le> (1 / 2) / l"
    using rb(1) l by (intro divide_right_mono) simp_all
  also have "\<dots> \<le> (1 / 2) / 15000"
    using l by (intro divide_left_mono) simp_all
  finally have q: "\<bar>b / l - rb / l\<bar> \<le> 1 / 30000" by simp
  define p where "p = b / l"
  define q where "q = rb / l"
  have "b \<le> 14 * l"
    using b l by linarith
  then have "b / l \<le> 14"
    using l by (simp add: pos_divide_le_eq)
  then have pq: "\<bar>p - q\<bar> \<le> 1 / 30000" "0 \<le> p" "0 \<le> q" "p \<le> 14"
    using q b rb(2) l by (simp_all add: p_def q_def)
  then have "\<bar>p\<bar> < 262144" "\<bar>q\<bar> < 262144" by linarith+
  then have e: "\<bar>fl p - p\<bar> \<le> 1 / 1000000" "\<bar>fl q - q\<bar> \<le> 1 / 1000000"
    by (simp_all only: fl_close)
  have nn: "0 \<le> fl p" "0 \<le> fl q" "0 \<le> fl 1.2"
    using pq fl_const(5) by (auto intro: fl_nonneg)
  have xy: "0 \<le> x" "0 \<le> y" "\<bar>x - y\<bar> < 1 / 100"
    unfolding x_def y_def p_def[symmetric] q_def[symmetric] l_def[symmetric] rb_def[symmetric]
    using pq e nn by linarith+
  show ?thesis
    by (rule toFixed_near[OF xy])
qed

text \<open>
  C4, amended: for every generated record the stored utilization is \<open>baseBalance / creditLimit\<close>
  capped at 1.2 and rounded to 2 decimals, where \<open>baseBalance\<close> is the unrounded balance
  of the loop body, whose rounding to the nearest integer is the stored \<open>accountBalance\<close>;
  its two-decimal value and that of the clamp rule on the stored fields differ by at most 0.01.
\<close>

theorem utilization_from_unrounded_balance:
  assumes "unit_draws rnd" and "i < 200"
  shows "let d = generatePortfolioData rnd ! i;
             b = fst (segmentParams (segment d) (rnd (6 * i + 2)));
             x = min (fl (b / real_of_int (creditLimit d))) (fl 1.2);
             y = min (max (fl (real_of_int (accountBalance d) / real_of_int (creditLimit d))) 0) (fl 1.2)
         in accountBalance d = Math_round b
            \<and> utilization d = parseFloat (toFixed 2 x)
            \<and> utilization_rule (accountBalance d) (creditLimit d) = parseFloat (toFixed 2 y)
            \<and> \<bar>toFixed 2 x - toFixed 2 y\<bar> \<le> 1 / 100"
proof -
  define seg where "seg = segments ! nat (Math_floor (fl (rnd (6 * i) * real (length segments))))"
  define b where "b = fst (segmentParams seg (rnd (6 * i + 2)))"
  define L where "L = fst (snd (segmentParams seg (rnd (6 * i + 2))))"
  have r2: "0 \<le> rnd (6 * i + 2)" "rnd (6 * i + 2) < 1"
    using assms(1) by (auto simp: unit_draws_def)
  have bL: "999 \<le> b" "b \<le> 200002" "15000 \<le> L"
    using segmentParams_balance[OF r2, of seg] segmentParams_limit[of seg "rnd (6 * i + 2)"]
    by (simp_all add: b_def L_def)
  have f: "segment (loopBody rnd (6 * i) i) = seg"
    "accountBalance (loopBody rnd (6 * i) i) = Math_round b"
    "creditLimit (loopBody rnd (6 * i) i) = L"
    "utilization (loopBody rnd (6 * i) i) = parseFloat (toFixed 2 (min (fl (b / real_of_int L)) (fl 1.2)))"
    unfolding b_def L_def seg_def by (rule loopBody_fields)+
  show ?thesis
    unfolding Let_def generatePortfolioData_nth[OF assms(2)] f
    using utilization_near_rule[OF bL] by (simp add: b_def utilization_rule_def)
qed

theorem utilization_from_unrounded_balance_witness:
  "unit_draws zero_draws \<and> (0::nat) < 200
   \<and> accountBalance (generatePortfolioData zero_draws ! 0) = 1000
   \<and> utilization (generatePortfolioData zero_draws ! 0) = parseFloat 0.07
   \<and> utilization_rule 1000 15000 = parseFloat 0.07"
proof -
  have h: "(0::nat) < 200" by simp
  have p: "fst (segmentParams MassMarket (zero_draws (6 * 0 + 2))) = 1000"
    by (simp add: segmentParams_def zero_draws_def fl_eval)
  have d: "fl (1000 / real_of_int 15000) = 4803839602528529 / 72057594037927936"
    "fl 1.2 = 5404319552844595 / 4503599627370496"
    by (simp_all add: fl_eval)
  have r: "utilization_rule 1000 15000 = parseFloat 0.07"
    by (simp add: utilization_rule_def toFixed_def parseFloat_def fl_eval)
  show ?thesis
    using utilization_from_unrounded_balance[OF unit_zero_draws h, unfolded Let_def zero_record p d]
      unit_zero_draws r
    by (simp add: zero_record toFixed_def Math_round_def d)
qed

section \<open>Risk score\<close>

text \<open>
  C5: for every generated record the risk score is \<open>u * 0.4 + utilization * 0.5\<close> for a
  draw \<open>u\<close> in \<open>[0, 1)\<close>, plus 0.1 exactly when the segment is Mass Market (nothing is
  added for Affluent or High Net Worth), clamped to \<open>[0.01, 0.99]\<close> and rounded to 3
  decimals, every operation being that of the program's arithmetic.  The utilization of
  the formula is the loop body's value \<open>min (baseBalance / baseLimit) 1.2\<close>, of which the
  stored field is the rounding.
\<close>

theorem riskScore_formula:
  assumes "unit_draws rnd" and "i < 200"
  shows "let d = generatePortfolioData rnd ! i;
             u = rnd (6 * i + 3);
             b = fst (segmentParams (segment d) (rnd (6 * i + 2)));
             util = min (fl (b / real_of_int (creditLimit d))) (fl 1.2);
             raw = fl (fl (u * fl 0.4) + fl (util * fl 0.5));
             biased = (if segment d = MassMarket then fl (raw + fl 0.1) else raw)
         in 0 \<le> u \<and> u < 1
            \<and> accountBalance d = Math_round b
            \<and> utilization d = parseFloat (toFixed 2 util)
            \<and> riskScore d = parseFloat (toFixed 3 (min (max biased (fl 0.01)) (fl 0.99)))"
proof -
  define seg where "seg = segments ! nat (Math_floor (fl (rnd (6 * i) * real (length segments))))"
  define b where "b = fst (segmentParams seg (rnd (6 * i + 2)))"
  define L where "L = fst (snd (segmentParams seg (rnd (6 * i + 2))))"
  have u: "0 \<le> rnd (6 * i + 3)" "rnd (6 * i + 3) < 1"
    using assms(1) by (auto simp: unit_draws_def)
  have f: "segment (loopBody rnd (6 * i) i) = seg"
    "accountBalance (loopBody rnd (6 * i) i) = Math_round b"
    "creditLimit (loopBody rnd (6 * i) i) = L"
    "utilization (loopBody rnd (6 * i) i) = parseFloat (toFixed 2 (min (fl (b / real_of_int L)) (fl 1.2)))"
    "riskScore (loopBody rnd (6 * i) i) =
       parseFloat (toFixed 3 (min (max
         (if seg = MassMarket
          then fl (fl (fl (rnd (6 * i + 3) * fl 0.4) + fl (min (fl (b / real_of_int L)) (fl 1.2) * fl 0.5)) + fl 0.1)
          else fl (fl (rnd (6 * i + 3) * fl 0.4) + fl (min (fl (b / real_of_int L)) (fl 1.2) * fl 0.5)))
         (fl 0.01)) (fl 0.99)))"
    unfolding b_def L_def seg_def by (rule loopBody_fields)+
  show ?thesis
    unfolding Let_def generatePortfolioData_nth[OF assms(2)] f
    using u by (simp add: b_def)
qed

theorem riskScore_formula_witness:
  "unit_draws zero_draws \<and> (0::nat) < 200
   \<and> segment (generatePortfolioData zero_draws ! 0) = MassMarket
   \<and> utilization (generatePortfolioData zero_draws ! 0) = parseFloat 0.07
   \<and> riskScore (generatePortfolioData zero_draws ! 0) = parseFloat 0.133"
proof -
  have h: "(0::nat) < 200" by simp
  have p: "fst (segmentParams MassMarket (zero_draws (6 * 0 + 2))) = 1000"
    by (simp add: segmentParams_def zero_draws_def fl_eval)
  have d: "fl (1000 / real_of_int 15000) = 4803839602528529 / 72057594037927936"
    "fl 1.2 = 5404319552844595 / 4503599627370496"
    by (simp_all add: fl_eval)
  show ?thesis
    using riskScore_formula[OF unit_zero_draws h, unfolded Let_def zero_record p d]
      unit_zero_draws
    by (simp add: zero_record zero_draws_def toFixed_def parseFloat_def fl_eval)
qed

section \<open>Range invariants of generated records\<close>

lemma loopBody_bounds:
  assumes u: "unit_draws rnd"
  shows "record_bounds (loopBody rnd k i)"
proof -
  define seg where "seg = segments ! nat (Math_floor (fl (rnd k * real (length segments))))"
  define b where "b = fst (segmentParams seg (rnd (k + 2)))"
  define L where "L = fst (snd (segmentParams seg (rnd (k + 2))))"
  define util where "util = min (fl (b / real_of_int L)) (fl 1.2)"
  define raw where "raw = fl (fl (rnd (k + 3) * fl 0.4) + fl (util * fl 0.5))"
  define risk where "risk = min (max (if seg = MassMarket then fl (raw + fl 0.1) else raw)
                                  (fl 0.01)) (fl 0.99)"
  have r2: "0 \<le> rnd (k + 2)" "rnd (k + 2) < 1" and r5: "0 \<le> rnd (k + 5)"
    using u by (auto simp: unit_draws_def)
  have b: "999 \<le> b" and L: "15000 \<le> L"
    using segmentParams_balance[OF r2, of seg] segmentParams_limit[of seg "rnd (k + 2)"]
    by (simp_all add: b_def L_def)
  have "0 \<le> b / real_of_int L"
    using b L by simp
  then have "0 \<le> fl (b / real_of_int L)"
    by (rule fl_nonneg)
  then have util: "0 \<le> util" "util \<le> 1.2"
    unfolding util_def using fl_const(1,5) by linarith+
  have risk: "0.01 \<le> risk" "risk \<le> 0.99"
    unfolding risk_def using fl_const(2,3,4) by linarith+
  define n2 where "n2 = \<lfloor>util * 10 ^ 2 + 1 / 2\<rfloor>"
  define n3 where "n3 = \<lfloor>risk * 10 ^ 3 + 1 / 2\<rfloor>"
  have n2: "0 \<le> n2" "n2 \<le> 120"
    unfolding n2_def using util by simp_all
  have n3: "10 \<le> n3" "n3 \<le> 990"
    unfolding n3_def using risk by simp_all
  have t2: "toFixed 2 util = real_of_int n2 / 100"
    using util(1) by (simp add: toFixed_nonneg n2_def)
  have t3: "toFixed 3 risk = real_of_int n3 / 1000"
    using risk(1) by (simp add: toFixed_nonneg n3_def)
  have U: "0 \<le> parseFloat (toFixed 2 util) \<and> parseFloat (toFixed 2 util) \<le> 1.2"
    unfolding t2 by (rule parse2_bounds[OF n2])
  have R: "0.01 \<le> parseFloat (toFixed 3 risk) \<and> parseFloat (toFixed 3 risk) \<le> 0.99"
    unfolding t3 by (rule parse3_bounds[OF n3])
  have B: "0 \<le> Math_round b"
    using b by (simp add: Math_round_def)
  have "0 \<le> fl (b * fl 0.04)" "0 \<le> fl (rnd (k + 5) * 500)"
    using b r5 by (auto intro!: fl_nonneg mult_nonneg_nonneg)
  then have "0 \<le> fl (fl (b * fl 0.04) + fl (rnd (k + 5) * 500))"
    by (intro fl_nonneg) simp
  then have A: "0 \<le> Math_round (fl (fl (b * fl 0.04) + fl (rnd (k + 5) * 500)))"
    by (simp add: Math_round_def)
  have f: "riskScore (loopBody rnd k i) = parseFloat (toFixed 3 risk)"
     "utilization (loopBody rnd k i) = parseFloat (toFixed 2 util)"
     "accountBalance (loopBody rnd k i) = Math_round b"
     "annualRevenue (loopBody rnd k i) = Math_round (fl (fl (b * fl 0.04) + fl (rnd (k + 5) * 500)))"
    unfolding risk_def raw_def util_def b_def L_def seg_def by (rule loopBody_fields)+
  show ?thesis
    unfolding record_bounds_def f using U R A B by blast
qed

text \<open>
  C9: every record produced by the generator satisfies \<open>0.01 \<le> riskScore \<le> 0.99\<close>,
  \<open>0 \<le> utilization \<le> 1.2\<close>, \<open>accountBalance \<ge> 0\<close> and \<open>annualRevenue \<ge> 0\<close>.
\<close>

theorem generated_record_bounds:
  "unit_draws rnd \<Longrightarrow> list_all record_bounds (generatePortfolioData rnd)"
  by (simp add: generatePortfolioData_map list_all_iff loopBody_bounds del: upt_Suc)

theorem generated_record_bounds_witness:
  "unit_draws zero_draws \<and> list_all record_bounds (generatePortfolioData zero_draws)"
  using generated_record_bounds[of zero_draws] by (simp add: unit_draws_def zero_draws_def)


section \<open>Grouping by segment\<close>

lemma map_fst_obj_modify: "map fst (obj_modify k f kvs) = map fst kvs"
  by (induction kvs) auto

lemma map_of_obj_modify_None: "map_of (obj_modify k f kvs) k' = None \<longleftrightarrow> map_of kvs k' = None"
  by (simp add: map_of_eq_None_iff map_fst_obj_modify flip: set_map)

lemma sum_obj_modify_same:
  fixes g :: "'v \<Rightarrow> int"
  assumes "\<And>v. g (f v) = g v"
  shows "sum_list (map (\<lambda>kv. g (snd kv)) (obj_modify k f kvs)) = sum_list (map (\<lambda>kv. g (snd kv)) kvs)"
  using assms by (induction kvs) auto

lemma sum_obj_modify_add:
  fixes g :: "'v \<Rightarrow> int"
  assumes "\<And>v. g (f v) = g v + c" and "k \<in> fst ` set kvs"
  shows "sum_list (map (\<lambda>kv. g (snd kv)) (obj_modify k f kvs)) = sum_list (map (\<lambda>kv. g (snd kv)) kvs) + c"
  using assms
proof (induction kvs)
  case Nil
  then show ?case by simp
next
  case (Cons kv kvs)
  obtain k' v where kv: "kv = (k', v)" by (cases kv)
  show ?case
  proof (cases "k' = k")
    case True
    then show ?thesis by (simp add: kv Cons.prems(1))
  next
    case False
    with Cons.prems(2) have "k \<in> fst ` set kvs" by (auto simp: kv)
    with Cons.IH Cons.prems(1) False show ?thesis by (simp add: kv)
  qed
qed

lemma segment_step_keys:
  "map fst (segment_step agg d) =
     (if segment d \<in> fst ` set agg then map fst agg else map fst agg @ [segment d])"
  by (auto simp: segment_step_def Let_def map_fst_obj_modify map_of_eq_None_iff)

lemma segment_step_balance:
  "sum_list (map (\<lambda>kv. seg_balance (snd kv)) (segment_step agg d))
     = sum_list (map (\<lambda>kv. seg_balance (snd kv)) agg) + accountBalance d"
proof -
  define agg0 where "agg0 = (if map_of agg (segment d) = None
                  then agg @ [(segment d, \<lparr> seg_name = segment d, seg_value = 0,
                                 seg_balance = 0, seg_count = 0, seg_revenue = 0 \<rparr>)]
                  else agg)"
  have in0: "segment d \<in> fst ` set agg0"
    by (auto simp: agg0_def map_of_eq_None_iff)
  have sum0: "sum_list (map (\<lambda>kv. seg_balance (snd kv)) agg0) = sum_list (map (\<lambda>kv. seg_balance (snd kv)) agg)"
    by (simp add: agg0_def)
  have in1: "segment d \<in> fst ` set (obj_modify (segment d) f agg0)" for f
    using in0 by (simp add: map_fst_obj_modify flip: set_map)
  show ?thesis
    unfolding segment_step_def Let_def agg0_def[symmetric]
    by (simp add: sum_obj_modify_same sum_obj_modify_add in1 sum0)
qed

lemma foldl_segment_step_balance:
  "sum_list (map (\<lambda>kv. seg_balance (snd kv)) (foldl segment_step agg fd))
     = sum_list (map (\<lambda>kv. seg_balance (snd kv)) agg) + sum_list (map accountBalance fd)"
  by (induction fd arbitrary: agg) (simp_all add: segment_step_balance)

lemma foldl_segment_step_keys:
  "distinct (map fst agg) \<Longrightarrow>
     distinct (map fst (foldl segment_step agg fd)) \<and>
     fst ` set (foldl segment_step agg fd) = fst ` set agg \<union> segment ` set fd"
proof (induction fd arbitrary: agg)
  case Nil
  then show ?case by simp
next
  case (Cons d fd)
  have d: "distinct (map fst (segment_step agg d))"
    using Cons.prems by (simp add: segment_step_keys)
  have "set (map fst (segment_step agg d)) = insert (segment d) (fst ` set agg)"
    unfolding segment_step_keys by auto
  then have "fst ` set (segment_step agg d) = insert (segment d) (fst ` set agg)"
    by simp
  with Cons.IH[OF d] show ?case by auto
qed

lemma obj_modify_named:
  "list_all (\<lambda>kv. seg_name (snd kv) = fst kv) agg \<Longrightarrow> (\<And>e. seg_name (f e) = seg_name e) \<Longrightarrow>
   list_all (\<lambda>kv. seg_name (snd kv) = fst kv) (obj_modify k f agg)"
  by (induction agg) auto

lemma segment_step_named:
  "list_all (\<lambda>kv. seg_name (snd kv) = fst kv) agg \<Longrightarrow>
   list_all (\<lambda>kv. seg_name (snd kv) = fst kv) (segment_step agg d)"
  unfolding segment_step_def Let_def
  by (intro obj_modify_named) auto

lemma foldl_segment_step_named:
  "list_all (\<lambda>kv. seg_name (snd kv) = fst kv) agg \<Longrightarrow>
   list_all (\<lambda>kv. seg_name (snd kv) = fst kv) (foldl segment_step agg fd)"
  by (induction fd arbitrary: agg) (simp_all add: segment_step_named)

lemma named_names:
  "list_all (\<lambda>kv. seg_name (snd kv) = fst kv) agg \<Longrightarrow> map (\<lambda>kv. seg_name (snd kv)) agg = map fst agg"
  by (induction agg) auto

lemma foldl_plus_sum_list:
  fixes a :: int
  shows "foldl (\<lambda>acc curr. acc + f curr) a xs = a + sum_list (map f xs)"
  by (induction xs arbitrary: a) simp_all

text \<open>
  C7: for every filtered record set, the per-segment balance accumulators of
  \<open>segmentData\<close> add up to the sum of \<open>accountBalance\<close> over the whole set (which is the
  \<open>totalBalance\<close> of \<open>metrics\<close>); the groups are a partition: no segment has two groups
  and the segments that have a group are exactly those of the records.
\<close>

theorem segmentData_balance_partition:
  "sum_list (map seg_balance (segmentData fd)) = sum_list (map accountBalance fd)
   \<and> sum_list (map seg_balance (segmentData fd)) = totalBalance (metrics fd)
   \<and> distinct (map seg_name (segmentData fd))
   \<and> set (map seg_name (segmentData fd)) = segment ` set fd"
proof -
  have n: "map seg_name (segmentData fd) = map fst (foldl segment_step [] fd)"
    using named_names[OF foldl_segment_step_named[of "[]" fd]]
    by (simp add: segmentData_def comp_def)
  have b: "sum_list (map seg_balance (segmentData fd)) = sum_list (map accountBalance fd)"
    using foldl_segment_step_balance[of "[]" fd] by (simp add: segmentData_def comp_def)
  have t: "totalBalance (metrics fd) = sum_list (map accountBalance fd)"
    by (simp add: metrics_def Let_def foldl_plus_sum_list)
  have "distinct (map seg_name (segmentData fd))"
    using foldl_segment_step_keys[of "[]" fd] unfolding n by simp
  moreover have "set (map seg_name (segmentData fd)) = segment ` set fd"
    using foldl_segment_step_keys[of "[]" fd] unfolding n by simp
  ultimately show ?thesis using b t by simp
qed

section \<open>Grouping by region\<close>

lemma set_sort_insert: "set (sort_insert c x ys) = insert x (set ys)"
  by (induction ys) auto

lemma sorted_sort_insert:
  "sorted_wrt (\<lambda>a b. reg_revenue b \<le> reg_revenue a) ys \<Longrightarrow>
   sorted_wrt (\<lambda>a b. reg_revenue b \<le> reg_revenue a)
     (sort_insert (\<lambda>a b. reg_revenue b - reg_revenue a) x ys)"
  by (induction ys) (auto simp: set_sort_insert)

lemma sorted_array_sort:
  "sorted_wrt (\<lambda>a b. reg_revenue b \<le> reg_revenue a)
     (array_sort (\<lambda>a b. reg_revenue b - reg_revenue a) xs)"
  unfolding array_sort_def by (induction xs) (auto simp: sorted_sort_insert)

text \<open>
  C8: the sequence returned by \<open>regionData\<close> is sorted by descending revenue: every
  adjacent pair \<open>(a, b)\<close> of the output has \<open>a.revenue \<ge> b.revenue\<close> (and so has every
  pair in output order).
\<close>

theorem regionData_sorted_desc:
  "successively (\<lambda>a b. reg_revenue a \<ge> reg_revenue b) (regionData fd)
   \<and> sorted_wrt (\<lambda>a b. reg_revenue a \<ge> reg_revenue b) (regionData fd)"
  using sorted_array_sort[of "map snd (foldl region_step [] fd)"]
  by (simp add: regionData_def successively_if_sorted_wrt)

end
